theory Spec2Isabelle
  imports Main "HOL-Library.Word"
begin

unbundle bit_operations_syntax

section \<open>The mozlz4 container codec (mozlz4.go)\<close>

text \<open>
  The package has two functions, \<open>Compress\<close> and \<open>Decompress\<close>, over Go byte slices.
  A byte is an 8-bit word, the size field a 32-bit word, and Go's \<open>int\<close> (64 bits on the
  platforms the command is built for) is modelled by \<open>nat\<close> for lengths and by \<open>int\<close>
  for the counts the block codec returns.
\<close>

type_synonym byte = "8 word"
type_synonym uint32 = "32 word"

subsection \<open>Package-level values\<close>

text \<open>\<open>var HEADER = []byte("mozLz40\x00")\<close>\<close>

definition HEADER :: "byte list" where
  "HEADER = [0x6d, 0x6f, 0x7a, 0x4c, 0x7a, 0x34, 0x30, 0x00]"

text \<open>
  The errors the two functions return: \<open>ErrInvalid\<close> (the package's sentinel),
  the \<open>fmt.Errorf("uncompressed size mismatch: expected %v, but got %v", size, n)\<close>
  value, which carries \<open>size\<close> and \<open>n\<close>, and an error of the lz4 package handed
  on unchanged.
\<close>

datatype 'e error = ErrInvalid | ErrSizeMismatch uint32 int | ErrBlock 'e

text \<open>
  Both functions return the Go pair \<open>([]byte, error)\<close>; \<open>None\<close> is \<open>nil\<close>.
  \<open>Panic\<close> is the run-time panic of a slice expression whose bound is out of range.
\<close>

datatype 'e result = Return (ret_buf: "byte list option") (ret_err: "'e error option") | Panic

subsection \<open>The standard library functions the package calls\<close>

text \<open>
  \<open>bytes.HasPrefix(s, prefix)\<close> is
  \<open>len(s) >= len(prefix) && Equal(s[:len(prefix)], prefix)\<close>, and
  \<open>bytes.CutPrefix\<close> returns \<open>s, false\<close> without the prefix and
  \<open>s[len(prefix):], true\<close> with it.
\<close>

definition bytes_HasPrefix :: "byte list \<Rightarrow> byte list \<Rightarrow> bool" where
  "bytes_HasPrefix s prefix \<longleftrightarrow> length prefix \<le> length s \<and> take (length prefix) s = prefix"

definition bytes_CutPrefix :: "byte list \<Rightarrow> byte list \<Rightarrow> byte list \<times> bool" where
  "bytes_CutPrefix s prefix =
     (if \<not> bytes_HasPrefix s prefix then (s, False) else (drop (length prefix) s, True))"

text \<open>
  \<open>binary.LittleEndian\<close>: \<open>PutUint32\<close> stores \<open>byte(v)\<close>, \<open>byte(v >> 8)\<close>,
  \<open>byte(v >> 16)\<close>, \<open>byte(v >> 24)\<close>; \<open>Uint32\<close> reads
  \<open>uint32(b[0]) | uint32(b[1])<<8 | uint32(b[2])<<16 | uint32(b[3])<<24\<close>.
\<close>

definition LittleEndian_PutUint32 :: "uint32 \<Rightarrow> byte list" where
  "LittleEndian_PutUint32 v =
     [ucast v, ucast (drop_bit 8 v), ucast (drop_bit 16 v), ucast (drop_bit 24 v)]"

definition LittleEndian_Uint32 :: "byte list \<Rightarrow> uint32" where
  "LittleEndian_Uint32 b =
     ucast (b ! 0) OR push_bit 8 (ucast (b ! 1)) OR push_bit 16 (ucast (b ! 2))
       OR push_bit 24 (ucast (b ! 3))"

text \<open>
  \<open>binary.Append(buf, binary.LittleEndian, v)\<close> for a \<open>uint32\<close> value: the data has the
  fixed size 4, so the function takes its fast path, which grows \<open>buf\<close> by four bytes,
  stores the value there and returns a nil error.
\<close>

definition binary_Append :: "byte list \<Rightarrow> uint32 \<Rightarrow> byte list \<times> 'e error option" where
  "binary_Append b v = (b @ LittleEndian_PutUint32 v, None)"

text \<open>
  \<open>binary.Decode(buf, binary.LittleEndian, &size)\<close> for a \<open>*uint32\<close>: with fewer than
  four bytes it returns \<open>0, errBufferTooSmall\<close> (here \<open>None\<close>: the caller replaces the
  error by \<open>ErrInvalid\<close>), otherwise it stores the decoded value and returns \<open>4, nil\<close>.
\<close>

definition binary_Decode :: "byte list \<Rightarrow> (nat \<times> uint32) option" where
  "binary_Decode b = (if length b < 4 then None else Some (4, LittleEndian_Uint32 b))"

subsection \<open>The block codec\<close>

text \<open>
  \<open>github.com/pierrec/lz4/v4\<close> is a dependency, not part of the repository, so the three
  functions the package calls are parameters of the model. \<open>CompressBlock\<close> and
  \<open>UncompressBlock\<close> take the source bytes and the destination slice and return either
  an error or the count \<open>n\<close> together with the bytes they stored at the front of the
  destination. A callee cannot change the length of the slice it was given: what the
  caller sees afterwards is \<open>overwrite dst w\<close>.
\<close>

record 'e block_codec =
  CompressBlockBound :: "nat \<Rightarrow> nat"
  CompressBlock :: "byte list \<Rightarrow> byte list \<Rightarrow> 'e + int \<times> byte list"
  UncompressBlock :: "byte list \<Rightarrow> byte list \<Rightarrow> 'e + int \<times> byte list"

definition overwrite :: "byte list \<Rightarrow> byte list \<Rightarrow> byte list" where
  "overwrite dst w = take (length dst) w @ drop (length w) dst"

subsection \<open>Compress\<close>

text \<open>
  \<open>buf\<close> is made with length 0 and capacity \<open>len(HEADER)+4+CompressBlockBound(len(data))\<close>,
  so the two appends stay inside the backing array, whose remaining cells are zero. The
  block compressor writes into \<open>buf[len(buf):cap(buf)]\<close>, and \<open>buf[:len(buf)+n]\<close>
  panics unless \<open>0 \<le> len(buf)+n \<le> cap(buf)\<close>. \<open>uint32(len(data))\<close> keeps the low
  32 bits of the length.
\<close>

definition Compress :: "'e block_codec \<Rightarrow> byte list \<Rightarrow> 'e result" where
  "Compress lz4 data =
     (let cap = length HEADER + 4 + CompressBlockBound lz4 (length data);
          buf0 = [] @ HEADER;
          (buf, err) = binary_Append buf0 (word_of_nat (length data))
      in case err of
           Some e \<Rightarrow> Return None (Some e)
         | None \<Rightarrow>
             if length data \<noteq> 0 then
               (let dst = replicate (cap - length buf) 0 in
                case CompressBlock lz4 data dst of
                  Inl e \<Rightarrow> Return None (Some (ErrBlock e))
                | Inr (n, w) \<Rightarrow>
                    (let high = int (length buf) + n in
                     if high < 0 \<or> int cap < high then Panic
                     else Return (Some (take (nat high) (buf @ overwrite dst w))) None))
             else Return (Some buf) None)"

subsection \<open>Decompress\<close>

definition Decompress :: "'e block_codec \<Rightarrow> byte list \<Rightarrow> 'e result" where
  "Decompress lz4 data =
     (let (data1, found) = bytes_CutPrefix data HEADER in
      if \<not> found then Return None (Some ErrInvalid)
      else
        case binary_Decode data1 of
          None \<Rightarrow> Return None (Some ErrInvalid)
        | Some (n, sz) \<Rightarrow>
            (let data2 = drop n data1 in
             if sz = 0 then Return (Some []) None
             else
               (let buf = replicate (unat sz) 0 in
                case UncompressBlock lz4 data2 buf of
                  Inl e \<Rightarrow> Return None (Some (ErrBlock e))
                | Inr (n, w) \<Rightarrow>
                    if word_of_int n \<noteq> sz then Return None (Some (ErrSizeMismatch sz n))
                    else Return (Some (overwrite buf w)) None)))"

subsection \<open>A concrete block codec\<close>

text \<open>
  To run the two functions on concrete inputs the parameter needs a value. \<open>lit_codec\<close>
  is a small block codec of its own, not a model of the lz4 package: it writes and reads
  LZ4 blocks that consist of one run of literals (a token whose high nibble is the run
  length, 15 meaning that bytes follow to be added until one is below 255, then the
  literals), which is the block an LZ4 compressor emits for an input too short to hold a
  match. Its bound is the LZ4 bound \<open>n + n/255 + 16\<close>.
\<close>

datatype lit_error = ErrShortBuffer | ErrMalformed

fun lit_len_ext :: "nat \<Rightarrow> byte list" where
  "lit_len_ext n = (if 255 \<le> n then 255 # lit_len_ext (n - 255) else [of_nat n])"

definition lit_block :: "byte list \<Rightarrow> byte list" where
  "lit_block src =
     (let n = length src
      in (if n < 15 then [of_nat (n * 16)] else 0xF0 # lit_len_ext (n - 15)) @ src)"

fun lit_read_len :: "nat \<Rightarrow> byte list \<Rightarrow> (nat \<times> byte list) option" where
  "lit_read_len acc [] = None"
| "lit_read_len acc (b # bs) =
     (if b = 255 then lit_read_len (acc + 255) bs else Some (acc + unat b, bs))"

definition lit_CompressBlock :: "byte list \<Rightarrow> byte list \<Rightarrow> lit_error + int \<times> byte list" where
  "lit_CompressBlock src dst =
     (let blk = lit_block src
      in if length dst < length blk then Inl ErrShortBuffer
         else Inr (int (length blk), blk))"

definition lit_UncompressBlock :: "byte list \<Rightarrow> byte list \<Rightarrow> lit_error + int \<times> byte list" where
  "lit_UncompressBlock src dst =
     (case src of
        [] \<Rightarrow> Inl ErrMalformed
      | tok # rest \<Rightarrow>
          if tok AND 0x0F \<noteq> 0 then Inl ErrMalformed
          else
            case (if drop_bit 4 tok = 15 then lit_read_len 15 rest
                  else Some (unat (drop_bit 4 tok), rest)) of
              None \<Rightarrow> Inl ErrMalformed
            | Some (n, lits) \<Rightarrow>
                if length lits \<noteq> n then Inl ErrMalformed
                else if length dst < n then Inl ErrShortBuffer
                else Inr (int n, lits))"

definition lit_codec :: "lit_error block_codec" where
  "lit_codec =
     \<lparr>CompressBlockBound = (\<lambda>n. n + n div 255 + 16),
      CompressBlock = lit_CompressBlock,
      UncompressBlock = lit_UncompressBlock\<rparr>"

text \<open>A block codec whose two block functions fail on every call.\<close>

definition failing_codec :: "unit block_codec" where
  "failing_codec =
     \<lparr>CompressBlockBound = (\<lambda>n. n + n div 255 + 16),
      CompressBlock = (\<lambda>src dst. Inl ()),
      UncompressBlock = (\<lambda>src dst. Inl ())\<rparr>"

subsection \<open>Notions the statements use\<close>

text \<open>
  The destination \<open>Compress\<close> hands to the block compressor: the
  \<open>cap(buf) - len(buf) = CompressBlockBound(len(data))\<close> cells after the twelve header
  bytes, all zero.
\<close>

definition Compress_dst :: "'e block_codec \<Rightarrow> byte list \<Rightarrow> byte list" where
  "Compress_dst lz4 d = replicate (CompressBlockBound lz4 (length d)) 0"

text \<open>
  The round-trip contract of the block codec at an input \<open>d\<close>: given the destination of
  \<open>Compress\<close>, \<open>CompressBlock\<close> returns no error and a count \<open>n\<close> of bytes inside
  the destination, and \<open>UncompressBlock\<close>, given these \<open>n\<close> bytes and a destination of
  \<open>len(d)\<close> bytes, returns no error, the count \<open>len(d)\<close>, and has written \<open>d\<close>.
\<close>

definition block_roundtrip :: "'e block_codec \<Rightarrow> byte list \<Rightarrow> bool" where
  "block_roundtrip lz4 d =
     (case CompressBlock lz4 d (Compress_dst lz4 d) of
        Inl e \<Rightarrow> False
      | Inr (n, w) \<Rightarrow>
          0 \<le> n \<and> n \<le> int (length (Compress_dst lz4 d)) \<and>
          (case UncompressBlock lz4 (take (nat n) (overwrite (Compress_dst lz4 d) w))
                  (replicate (length d) 0) of
             Inl e \<Rightarrow> False
           | Inr (m, w') \<Rightarrow> m = int (length d) \<and> overwrite (replicate (length d) 0) w' = d))"

declare lit_len_ext.simps [simp del]

section \<open>Facts about the library functions\<close>

lemma length_HEADER: "length HEADER = 8"
  by (simp add: HEADER_def)

lemma CutPrefix_HEADER_append: "bytes_CutPrefix (HEADER @ t) HEADER = (t, True)"
  by (simp add: bytes_CutPrefix_def bytes_HasPrefix_def)

lemma CutPrefix_not_found:
  "take 8 data \<noteq> HEADER \<Longrightarrow> bytes_CutPrefix data HEADER = (data, False)"
  by (simp add: bytes_CutPrefix_def bytes_HasPrefix_def length_HEADER)

lemma length_PutUint32: "length (LittleEndian_PutUint32 v) = 4"
  by (simp add: LittleEndian_PutUint32_def)

lemma PutUint32_0: "LittleEndian_PutUint32 0 = [0, 0, 0, 0]"
  by (simp add: LittleEndian_PutUint32_def)

lemma Uint32_Cons:
  "LittleEndian_Uint32 (a # b # c # d # t) =
     ucast a OR push_bit 8 (ucast b) OR push_bit 16 (ucast c) OR push_bit 24 (ucast d)"
  by (simp add: LittleEndian_Uint32_def)

lemma le_bytes_join:
  "ucast (ucast v :: byte) OR push_bit 8 (ucast (ucast (drop_bit 8 v) :: byte))
     OR push_bit 16 (ucast (ucast (drop_bit 16 v) :: byte))
     OR push_bit 24 (ucast (ucast (drop_bit 24 v) :: byte)) = (v :: uint32)"
proof (rule bit_word_eqI)
  fix n :: nat
  assume "n < LENGTH(32)"
  then have n: "n < 32" by simp
  consider "n < 8" | "8 \<le> n" "n < 16" | "16 \<le> n" "n < 24" | "24 \<le> n" "n < 32"
    using n by linarith
  then show "bit (ucast (ucast v :: byte) OR push_bit 8 (ucast (ucast (drop_bit 8 v) :: byte))
     OR push_bit 16 (ucast (ucast (drop_bit 16 v) :: byte))
     OR push_bit 24 (ucast (ucast (drop_bit 24 v) :: byte)) :: uint32) n = bit v n"
    by cases (auto simp add: bit_simps)
qed

lemma Uint32_PutUint32: "LittleEndian_Uint32 (LittleEndian_PutUint32 v @ t) = v"
  by (simp add: LittleEndian_PutUint32_def Uint32_Cons le_bytes_join)

lemma unat_PutUint32:
  "map unat (LittleEndian_PutUint32 v) =
     [unat v mod 256, unat v div 256 mod 256, unat v div 65536 mod 256,
      unat v div 16777216 mod 256]"
  by (simp add: LittleEndian_PutUint32_def unsigned_ucast_eq unat_drop_bit_eq
      drop_bit_eq_div take_bit_eq_mod unat_div)

lemma Decode_short: "length t < 4 \<Longrightarrow> binary_Decode t = None"
  by (simp add: binary_Decode_def)

lemma Decode_PutUint32: "binary_Decode (LittleEndian_PutUint32 v @ t) = Some (4, v)"
  by (simp add: binary_Decode_def length_PutUint32 Uint32_PutUint32)

lemma length_overwrite: "length (overwrite dst w) = length dst"
  by (simp add: overwrite_def)

lemma take_overwrite: "length w \<le> length dst \<Longrightarrow> take (length w) (overwrite dst w) = w"
  by (simp add: overwrite_def)

section \<open>The two functions, case by case\<close>

lemma Compress_Nil: "Compress lz4 [] = Return (Some (HEADER @ LittleEndian_PutUint32 0)) None"
  by (simp add: Compress_def binary_Append_def)

lemma length_Compress_dst: "length (Compress_dst lz4 d) = CompressBlockBound lz4 (length d)"
  by (simp add: Compress_dst_def)

lemma Compress_nonempty:
  "d \<noteq> [] \<Longrightarrow>
   Compress lz4 d =
     (case CompressBlock lz4 d (Compress_dst lz4 d) of
        Inl e \<Rightarrow> Return None (Some (ErrBlock e))
      | Inr (n, w) \<Rightarrow>
          if n < - 12 \<or> int (length (Compress_dst lz4 d)) < n then Panic
          else Return (Some (take (nat (12 + n))
                 (HEADER @ LittleEndian_PutUint32 (word_of_nat (length d))
                    @ overwrite (Compress_dst lz4 d) w))) None)"
  by (auto simp add: Compress_def Compress_dst_def binary_Append_def length_HEADER
      length_PutUint32 Let_def split: sum.splits prod.splits)

lemma take_container:
  "0 \<le> n \<Longrightarrow>
   take (nat (12 + n)) (HEADER @ LittleEndian_PutUint32 v @ p)
     = HEADER @ LittleEndian_PutUint32 v @ take (nat n) p"
  by (simp add: length_HEADER length_PutUint32 nat_add_distrib)

lemma Decompress_framed:
  "Decompress lz4 (HEADER @ LittleEndian_PutUint32 sz @ p) =
     (if sz = 0 then Return (Some []) None
      else
        case UncompressBlock lz4 p (replicate (unat sz) 0) of
          Inl e \<Rightarrow> Return None (Some (ErrBlock e))
        | Inr (n, w) \<Rightarrow>
            if word_of_int n \<noteq> sz then Return None (Some (ErrSizeMismatch sz n))
            else Return (Some (overwrite (replicate (unat sz) 0) w)) None)"
  by (simp add: Decompress_def CutPrefix_HEADER_append Decode_PutUint32 length_PutUint32 Let_def)

lemma Compress_counted:
  assumes "d \<noteq> []"
    and "CompressBlock lz4 d (Compress_dst lz4 d) = Inr (n, w)"
    and "0 \<le> n" and "n \<le> int (length (Compress_dst lz4 d))"
  shows "Compress lz4 d =
           Return (Some (HEADER @ LittleEndian_PutUint32 (word_of_nat (length d))
             @ take (nat n) (overwrite (Compress_dst lz4 d) w))) None"
proof -
  have "take (nat (12 + n)) (HEADER @ LittleEndian_PutUint32 (word_of_nat (length d))
           @ overwrite (Compress_dst lz4 d) w)
      = HEADER @ LittleEndian_PutUint32 (word_of_nat (length d))
           @ take (nat n) (overwrite (Compress_dst lz4 d) w)"
    using assms(3) by (rule take_container)
  then show ?thesis
    using assms by (simp add: Compress_nonempty del: take_append)
qed

lemma Compress_cases:
  assumes "d \<noteq> []"
  obtains (error) e where "CompressBlock lz4 d (Compress_dst lz4 d) = Inl e"
      "Compress lz4 d = Return None (Some (ErrBlock e))"
    | (panic) n w where "CompressBlock lz4 d (Compress_dst lz4 d) = Inr (n, w)"
      "n < - 12 \<or> int (length (Compress_dst lz4 d)) < n" "Compress lz4 d = Panic"
    | (buffer) n w where "CompressBlock lz4 d (Compress_dst lz4 d) = Inr (n, w)"
      "- 12 \<le> n" "n \<le> int (length (Compress_dst lz4 d))"
      "Compress lz4 d = Return (Some (take (nat (12 + n))
          (HEADER @ LittleEndian_PutUint32 (word_of_nat (length d))
             @ overwrite (Compress_dst lz4 d) w))) None"
proof (cases "CompressBlock lz4 d (Compress_dst lz4 d)")
  case (Inl e)
  with assms have "Compress lz4 d = Return None (Some (ErrBlock e))"
    by (simp add: Compress_nonempty)
  with Inl show ?thesis by (rule error)
next
  case (Inr nw)
  obtain n w where nw: "nw = (n, w)" by (cases nw)
  show ?thesis
  proof (cases "n < - 12 \<or> int (length (Compress_dst lz4 d)) < n")
    case True
    with assms Inr nw have "Compress lz4 d = Panic"
      by (simp add: Compress_nonempty)
    with Inr nw True show ?thesis by (intro panic [of n w]) simp_all
  next
    case False
    with assms Inr nw have "Compress lz4 d = Return (Some (take (nat (12 + n))
          (HEADER @ LittleEndian_PutUint32 (word_of_nat (length d))
             @ overwrite (Compress_dst lz4 d) w))) None"
      by (simp add: Compress_nonempty del: take_append)
    with Inr nw False show ?thesis by (intro buffer [of n w]) simp_all
  qed
qed

lemma block_roundtripE:
  assumes "block_roundtrip lz4 d"
  obtains n w m w' where
    "CompressBlock lz4 d (Compress_dst lz4 d) = Inr (n, w)"
    "0 \<le> n" "n \<le> int (length (Compress_dst lz4 d))"
    "UncompressBlock lz4 (take (nat n) (overwrite (Compress_dst lz4 d) w))
       (replicate (length d) 0) = Inr (m, w')"
    "m = int (length d)"
    "overwrite (replicate (length d) 0) w' = d"
proof (cases "CompressBlock lz4 d (Compress_dst lz4 d)")
  case (Inl e)
  with assms show ?thesis by (simp add: block_roundtrip_def)
next
  case (Inr nw)
  obtain n w where nw: "nw = (n, w)" by (cases nw)
  show ?thesis
  proof (cases "UncompressBlock lz4 (take (nat n) (overwrite (Compress_dst lz4 d) w))
       (replicate (length d) 0)")
    case (Inl e)
    with assms Inr nw show ?thesis by (simp add: block_roundtrip_def)
  next
    case Inr': (Inr mw)
    obtain m w' where mw: "mw = (m, w')" by (cases mw)
    from assms Inr nw Inr' mw show ?thesis
      by (intro that [of n w m w']) (simp_all add: block_roundtrip_def)
  qed
qed

section \<open>Facts about the concrete codecs\<close>

lemma length_lit_len_ext: "length (lit_len_ext n) = n div 255 + 1"
proof (induction n rule: lit_len_ext.induct)
  case (1 n)
  show ?case
  proof (cases "255 \<le> n")
    case True
    then have "length (lit_len_ext n) = Suc (length (lit_len_ext (n - 255)))"
      by (subst lit_len_ext.simps) simp
    also have "\<dots> = Suc ((n - 255) div 255 + 1)"
      using 1 True by simp
    also have "\<dots> = n div 255 + 1"
      using True by (simp add: le_div_geq)
    finally show ?thesis .
  next
    case False
    then show ?thesis
      by (subst lit_len_ext.simps) simp
  qed
qed

lemma length_lit_block:
  "length (lit_block d) =
     (if length d < 15 then 1 + length d else 2 + (length d - 15) div 255 + length d)"
  by (simp add: lit_block_def Let_def length_lit_len_ext)

lemma length_lit_block_le: "length (lit_block d) \<le> length (Compress_dst lit_codec d)"
proof -
  have "(length d - 15) div 255 \<le> length d div 255"
    by (rule div_le_mono) simp
  then show ?thesis
    by (simp add: length_lit_block length_Compress_dst lit_codec_def)
qed

lemma CompressBlock_lit:
  "CompressBlock lit_codec d (Compress_dst lit_codec d)
     = Inr (int (length (lit_block d)), lit_block d)"
  using length_lit_block_le [of d]
  by (simp add: lit_codec_def lit_CompressBlock_def Let_def)

lemma Compress_lit:
  assumes "d \<noteq> []"
  shows "Compress lit_codec d =
           Return (Some (HEADER @ LittleEndian_PutUint32 (word_of_nat (length d)) @ lit_block d))
             None"
proof -
  have "Compress lit_codec d =
      Return (Some (HEADER @ LittleEndian_PutUint32 (word_of_nat (length d))
        @ take (nat (int (length (lit_block d))))
            (overwrite (Compress_dst lit_codec d) (lit_block d)))) None"
    using assms length_lit_block_le [of d]
    by (intro Compress_counted CompressBlock_lit) simp_all
  then show ?thesis
    using take_overwrite [OF length_lit_block_le [of d]] by simp
qed

lemma lit_block_2: "lit_block [0x7b, 0x7d] = [0x20, 0x7b, 0x7d]"
  by (simp add: lit_block_def)

lemma CompressBlock_lit_2:
  "CompressBlock lit_codec [0x7b, 0x7d] (Compress_dst lit_codec [0x7b, 0x7d])
     = Inr (3, [0x20, 0x7b, 0x7d])"
  by (simp add: CompressBlock_lit lit_block_2)

lemma Compress_lit_2:
  "Compress lit_codec [0x7b, 0x7d] = Return (Some (HEADER @ [2, 0, 0, 0, 0x20, 0x7b, 0x7d])) None"
  by (simp add: Compress_lit lit_block_2 LittleEndian_PutUint32_def)

text \<open>The fifteen bytes \<open>{"data": "..."}\<close>: a run of fifteen literals needs one length byte.\<close>

lemma Compress_lit_15:
  "Compress lit_codec
     [0x7b, 0x22, 0x64, 0x61, 0x74, 0x61, 0x22, 0x3a, 0x20, 0x22, 0x2e, 0x2e, 0x2e, 0x22, 0x7d]
   = Return (Some (HEADER @ [0x0f, 0, 0, 0, 0xf0, 0x00,
       0x7b, 0x22, 0x64, 0x61, 0x74, 0x61, 0x22, 0x3a, 0x20, 0x22, 0x2e, 0x2e, 0x2e, 0x22, 0x7d]))
       None"
  by (simp add: Compress_lit lit_block_def lit_len_ext.simps LittleEndian_PutUint32_def)


lemma CompressBlock_failing:
  "CompressBlock failing_codec d (Compress_dst failing_codec d) = Inl ()"
  by (simp add: failing_codec_def)

lemma Compress_failing: "d \<noteq> [] \<Longrightarrow> Compress failing_codec d = Return None (Some (ErrBlock ()))"
  by (simp add: Compress_nonempty CompressBlock_failing)

lemma lit_read_len_ext: "lit_read_len acc (lit_len_ext m @ r) = Some (acc + m, r)"
proof (induction m arbitrary: acc rule: lit_len_ext.induct)
  case (1 n)
  show ?case
  proof (cases "255 \<le> n")
    case True
    then have "lit_len_ext n = 255 # lit_len_ext (n - 255)"
      by (subst lit_len_ext.simps) simp
    with True 1 [of "acc + 255"] show ?thesis by simp
  next
    case False
    then have ext: "lit_len_ext n = [of_nat n]"
      by (subst lit_len_ext.simps) simp
    from False have u: "unat (of_nat n :: byte) = n"
      by (simp add: unat_of_nat)
    have "(of_nat n :: byte) \<noteq> 255"
    proof
      assume "(of_nat n :: byte) = 255"
      then have "unat (of_nat n :: byte) = unat (255 :: byte)" by simp
      with u have "n = 255" by simp
      with False show False by simp
    qed
    with u show ?thesis by (simp add: ext)
  qed
qed

lemma lit_token:
  assumes "n < 15"
  shows "(of_nat (n * 16) :: byte) AND 0x0F = 0"
    and "drop_bit 4 (of_nat (n * 16) :: byte) \<noteq> 15"
    and "unat (drop_bit 4 (of_nat (n * 16) :: byte)) = n"
proof -
  from assms consider "n = 0" | "n = 1" | "n = 2" | "n = 3" | "n = 4" | "n = 5" | "n = 6"
    | "n = 7" | "n = 8" | "n = 9" | "n = 10" | "n = 11" | "n = 12" | "n = 13" | "n = 14"
    by atomize_elim arith
  then have "(of_nat (n * 16) :: byte) AND 0x0F = 0
      \<and> drop_bit 4 (of_nat (n * 16) :: byte) \<noteq> 15
      \<and> unat (drop_bit 4 (of_nat (n * 16) :: byte)) = n"
    by cases simp_all
  then show "(of_nat (n * 16) :: byte) AND 0x0F = 0"
    and "drop_bit 4 (of_nat (n * 16) :: byte) \<noteq> 15"
    and "unat (drop_bit 4 (of_nat (n * 16) :: byte)) = n"
    by simp_all
qed

lemma UncompressBlock_lit_block:
  assumes "length d \<le> length dst"
  shows "UncompressBlock lit_codec (lit_block d) dst = Inr (int (length d), d)"
proof (cases "length d < 15")
  case True
  with assms lit_token [OF True] show ?thesis
    by (simp add: lit_codec_def lit_UncompressBlock_def lit_block_def)
next
  case False
  have "(0xF0 :: byte) AND 0x0F = 0" "drop_bit 4 (0xF0 :: byte) = 15"
    by simp_all
  with False assms lit_read_len_ext [of 15 "length d - 15" d] show ?thesis
    by (simp add: lit_codec_def lit_UncompressBlock_def lit_block_def)
qed

lemma block_roundtrip_lit: "block_roundtrip lit_codec d"
proof -
  have "take (nat (int (length (lit_block d)))) (overwrite (Compress_dst lit_codec d) (lit_block d))
      = lit_block d"
    using take_overwrite [OF length_lit_block_le [of d]] by simp
  moreover have "UncompressBlock lit_codec (lit_block d) (replicate (length d) 0)
      = Inr (int (length d), d)"
    by (rule UncompressBlock_lit_block) simp
  moreover have "overwrite (replicate (length d) 0) d = d"
    by (simp add: overwrite_def)
  ultimately show ?thesis
    using length_lit_block_le [of d]
    by (simp add: block_roundtrip_def CompressBlock_lit)
qed

section \<open>Round trip\<close>

text \<open>
  C1. For every byte sequence \<open>d\<close> shorter than \<open>2^32\<close> bytes, under the round-trip
  contract of the block codec at \<open>d\<close> (needed only when \<open>d\<close> is not empty),
  \<open>Compress\<close> returns a buffer and a nil error, and \<open>Decompress\<close> of that buffer
  returns exactly \<open>d\<close> and a nil error.
\<close>

theorem Decompress_Compress:
  assumes "length d < 2 ^ 32"
    and "d \<noteq> [] \<longrightarrow> block_roundtrip lz4 d"
  shows "\<exists>c. Compress lz4 d = Return (Some c) None \<and> Decompress lz4 c = Return (Some d) None"
proof (cases "d = []")
  case True
  have "Decompress lz4 (HEADER @ LittleEndian_PutUint32 0 @ []) = Return (Some []) None"
    using Decompress_framed [of lz4 0 "[]"] by simp
  with True show ?thesis
    by (simp add: Compress_Nil)
next
  case False
  let ?dst = "Compress_dst lz4 d"
  let ?sz = "word_of_nat (length d) :: uint32"
  from False assms(2) have "block_roundtrip lz4 d" by simp
  then obtain n w m w' where
    enc: "CompressBlock lz4 d ?dst = Inr (n, w)" and lo: "0 \<le> n"
    and hi: "n \<le> int (length ?dst)"
    and dec: "UncompressBlock lz4 (take (nat n) (overwrite ?dst w)) (replicate (length d) 0)
                = Inr (m, w')"
    and m: "m = int (length d)"
    and out: "overwrite (replicate (length d) 0) w' = d"
    by (rule block_roundtripE)
  have unat_sz: "unat ?sz = length d"
    using assms(1) by (simp add: unat_of_nat)
  have sz0: "?sz \<noteq> 0"
  proof
    assume "?sz = 0"
    then have "unat ?sz = 0" by simp
    with unat_sz False show False by simp
  qed
  have msz: "(word_of_int m :: uint32) = ?sz"
    unfolding m by simp
  have c: "Compress lz4 d =
      Return (Some (HEADER @ LittleEndian_PutUint32 ?sz @ take (nat n) (overwrite ?dst w))) None"
    using False enc lo hi by (rule Compress_counted)
  have "Decompress lz4 (HEADER @ LittleEndian_PutUint32 ?sz @ take (nat n) (overwrite ?dst w))
      = Return (Some d) None"
    unfolding Decompress_framed unat_sz using sz0 dec msz out by simp
  with c show ?thesis by blast
qed

theorem Decompress_Compress_witness:
  "length [0x7b, 0x7d :: byte] < 2 ^ 32
   \<and> block_roundtrip lit_codec [0x7b, 0x7d]
   \<and> Compress lit_codec [0x7b, 0x7d]
       = Return (Some (HEADER @ [2, 0, 0, 0, 0x20, 0x7b, 0x7d])) None
   \<and> Decompress lit_codec (HEADER @ [2, 0, 0, 0, 0x20, 0x7b, 0x7d])
       = Return (Some [0x7b, 0x7d]) None"
proof -
  have len: "length [0x7b, 0x7d :: byte] < 2 ^ 32" by simp
  have rt: "block_roundtrip lit_codec [0x7b, 0x7d]"
    by (rule block_roundtrip_lit)
  then have "[0x7b, 0x7d :: byte] \<noteq> [] \<longrightarrow> block_roundtrip lit_codec [0x7b, 0x7d]" by simp
  from Decompress_Compress [OF len this]
  have "Decompress lit_codec (HEADER @ [2, 0, 0, 0, 0x20, 0x7b, 0x7d])
       = Return (Some [0x7b, 0x7d]) None"
    by (simp add: Compress_lit_2)
  with len rt Compress_lit_2 show ?thesis by blast
qed

section \<open>Inputs of \<open>2^32\<close> bytes and more\<close>

text \<open>
  C2, as amended. \<open>Compress\<close> makes no check of the input's length and has no
  size-overflow error. For an input longer than \<open>2^32 - 1\<close> bytes it returns an error
  only when the block compressor returns one (that error, with no buffer), and when the
  block compressor returns a count \<open>n\<close> of bytes inside its destination, \<open>Compress\<close>
  returns a container of \<open>12 + n\<close> bytes that begins with the magic, and a nil error.
\<close>

theorem Compress_no_size_check:
  assumes "2 ^ 32 - 1 < length d"
  shows "(\<forall>r e. Compress lz4 d = Return r (Some e) \<longrightarrow>
            r = None \<and> (\<exists>e'. CompressBlock lz4 d (Compress_dst lz4 d) = Inl e' \<and> e = ErrBlock e'))
       \<and> (\<forall>n w. CompressBlock lz4 d (Compress_dst lz4 d) = Inr (n, w)
              \<and> 0 \<le> n \<and> n \<le> int (length (Compress_dst lz4 d))
            \<longrightarrow> (\<exists>c. Compress lz4 d = Return (Some c) None \<and> take 8 c = HEADER
                   \<and> int (length c) = 12 + n))"
proof -
  from assms have ne: "d \<noteq> []" by auto
  have 1: "r = None \<and> (\<exists>e'. CompressBlock lz4 d (Compress_dst lz4 d) = Inl e' \<and> e = ErrBlock e')"
    if "Compress lz4 d = Return r (Some e)" for r e
    using ne by (cases rule: Compress_cases [of d lz4]) (use that in auto)
  have 2: "\<exists>c. Compress lz4 d = Return (Some c) None \<and> take 8 c = HEADER
      \<and> int (length c) = 12 + n"
    if "CompressBlock lz4 d (Compress_dst lz4 d) = Inr (n, w)" "0 \<le> n"
      "n \<le> int (length (Compress_dst lz4 d))" for n w
  proof -
    have "Compress lz4 d = Return (Some (HEADER @ LittleEndian_PutUint32 (word_of_nat (length d))
             @ take (nat n) (overwrite (Compress_dst lz4 d) w))) None"
      using ne that by (rule Compress_counted)
    moreover have "int (length (HEADER @ LittleEndian_PutUint32 (word_of_nat (length d))
             @ take (nat n) (overwrite (Compress_dst lz4 d) w))) = 12 + n"
      using that(2,3) by (simp add: length_HEADER length_PutUint32 length_overwrite)
    moreover have "take 8 (HEADER @ LittleEndian_PutUint32 (word_of_nat (length d))
             @ take (nat n) (overwrite (Compress_dst lz4 d) w)) = HEADER"
      by (simp add: length_HEADER)
    ultimately show ?thesis by blast
  qed
  from 1 2 show ?thesis by blast
qed

text \<open>
  The claim as stated fails at the input of \<open>2^32\<close> zero bytes: with \<open>lit_codec\<close>,
  \<open>Compress\<close> returns a nil error and a container, whose size field is four zero bytes.
\<close>

theorem Compress_no_size_check_counterexample:
  "2 ^ 32 - 1 < length (replicate (2 ^ 32) (0 :: byte))
   \<and> Compress lit_codec (replicate (2 ^ 32) 0)
       = Return (Some (HEADER @ [0, 0, 0, 0] @ lit_block (replicate (2 ^ 32) 0))) None
   \<and> length (HEADER @ [0, 0, 0, 0] @ lit_block (replicate (2 ^ 32) (0 :: byte))) = 4311810318"
proof -
  have "replicate (2 ^ 32) (0 :: byte) \<noteq> []" by simp
  then have "Compress lit_codec (replicate (2 ^ 32) 0)
      = Return (Some (HEADER @ LittleEndian_PutUint32 (word_of_nat (length (replicate (2 ^ 32) (0 :: byte))))
          @ lit_block (replicate (2 ^ 32) 0))) None"
    by (rule Compress_lit)
  moreover have "LittleEndian_PutUint32 (word_of_nat (length (replicate (2 ^ 32) (0 :: byte))))
      = [0, 0, 0, 0]"
  proof -
    have "(word_of_nat (length (replicate (2 ^ 32) (0 :: byte))) :: uint32) = 0"
      by simp
    then show ?thesis by (simp only: PutUint32_0)
  qed
  ultimately have enc: "Compress lit_codec (replicate (2 ^ 32) 0)
      = Return (Some (HEADER @ [0, 0, 0, 0] @ lit_block (replicate (2 ^ 32) 0))) None"
    by (simp only:)
  have len: "length (HEADER @ [0, 0, 0, 0] @ lit_block (replicate (2 ^ 32) (0 :: byte)))
      = 4311810318"
    by (simp add: length_HEADER length_lit_block)
  have "2 ^ 32 - 1 < length (replicate (2 ^ 32) (0 :: byte))" by simp
  with enc len show ?thesis by blast
qed

theorem Compress_no_size_check_witness:
  "2 ^ 32 - 1 < length (replicate (2 ^ 32) (0 :: byte))
   \<and> CompressBlock lit_codec (replicate (2 ^ 32) 0) (Compress_dst lit_codec (replicate (2 ^ 32) 0))
       = Inr (4311810306, lit_block (replicate (2 ^ 32) 0))
   \<and> (4311810306 :: int) \<le> int (length (Compress_dst lit_codec (replicate (2 ^ 32) 0)))
   \<and> (\<exists>c. Compress lit_codec (replicate (2 ^ 32) 0) = Return (Some c) None
          \<and> take 8 c = HEADER \<and> int (length c) = 12 + 4311810306)"
proof -
  let ?d = "replicate (2 ^ 32) (0 :: byte)"
  have len: "2 ^ 32 - 1 < length ?d" by simp
  have n: "int (length (lit_block ?d)) = 4311810306"
    by (simp add: length_lit_block)
  have run: "CompressBlock lit_codec ?d (Compress_dst lit_codec ?d)
      = Inr (4311810306, lit_block ?d)"
    using CompressBlock_lit [of ?d] by (simp only: n)
  have hi: "(4311810306 :: int) \<le> int (length (Compress_dst lit_codec ?d))"
    using length_lit_block_le [of ?d] n by linarith
  from Compress_no_size_check [OF len, of lit_codec] run hi
  have "\<exists>c. Compress lit_codec ?d = Return (Some c) None
      \<and> take 8 c = HEADER \<and> int (length c) = 12 + 4311810306"
    by (meson order_refl zero_le_numeral)
  with len run hi show ?thesis by blast
qed

section \<open>The size field\<close>




section \<open>Decompress: the header checks\<close>

text \<open>
  C4. A buffer whose first eight bytes are not the magic \<open>mozLz40\0\<close> is refused with
  \<open>ErrInvalid\<close> and no buffer. A buffer shorter than eight bytes is such a buffer, the
  empty one included.
\<close>

theorem Decompress_bad_magic:
  "(take 8 data \<noteq> HEADER \<longrightarrow> Decompress lz4 data = Return None (Some ErrInvalid))
   \<and> (length data < 8 \<longrightarrow> Decompress lz4 data = Return None (Some ErrInvalid))"
proof -
  have no_magic: "Decompress lz4 d = Return None (Some ErrInvalid)"
    if "take 8 d \<noteq> HEADER" for d
    using that by (simp add: Decompress_def CutPrefix_not_found)
  have short: "take 8 d \<noteq> HEADER" if "length d < 8" for d
  proof
    assume "take 8 d = HEADER"
    then have "length (take 8 d) = 8" by (simp add: length_HEADER)
    with that show False by simp
  qed
  show ?thesis using no_magic short by blast
qed

theorem Decompress_bad_magic_witness:
  "take 8 [0x6d, 0x6f, 0x7a, 0x4c, 0x7a, 0x34, 0x30, 0x01, 0, 0, 0, 0 :: byte] \<noteq> HEADER
   \<and> Decompress lit_codec [0x6d, 0x6f, 0x7a, 0x4c, 0x7a, 0x34, 0x30, 0x01, 0, 0, 0, 0]
       = Return None (Some ErrInvalid)
   \<and> length ([] :: byte list) < 8
   \<and> Decompress lit_codec [] = Return None (Some ErrInvalid)
   \<and> length [0x6d, 0x6f, 0x7a, 0x4c, 0x7a, 0x34, 0x30 :: byte] < 8
   \<and> Decompress lit_codec [0x6d, 0x6f, 0x7a, 0x4c, 0x7a, 0x34, 0x30]
       = Return None (Some ErrInvalid)"
proof -
  have ne: "take 8 [0x6d, 0x6f, 0x7a, 0x4c, 0x7a, 0x34, 0x30, 0x01, 0, 0, 0, 0 :: byte] \<noteq> HEADER"
    by (simp add: HEADER_def)
  from ne
    Decompress_bad_magic [of "[0x6d, 0x6f, 0x7a, 0x4c, 0x7a, 0x34, 0x30, 0x01, 0, 0, 0, 0]" lit_codec]
    Decompress_bad_magic [of "[]" lit_codec]
    Decompress_bad_magic [of "[0x6d, 0x6f, 0x7a, 0x4c, 0x7a, 0x34, 0x30]" lit_codec]
  show ?thesis by simp
qed

text \<open>
  C5. The magic followed by fewer than four bytes (none, one, two or three) is refused
  with \<open>ErrInvalid\<close> and no buffer.
\<close>

theorem Decompress_truncated_size:
  "length t < 4 \<Longrightarrow> Decompress lz4 (HEADER @ t) = Return None (Some ErrInvalid)"
  by (simp add: Decompress_def CutPrefix_HEADER_append Decode_short)

theorem Decompress_truncated_size_witness:
  "length [0x02, 0x00, 0x00 :: byte] < 4
   \<and> Decompress lit_codec (HEADER @ [0x02, 0x00, 0x00]) = Return None (Some ErrInvalid)
   \<and> Decompress lit_codec (HEADER @ []) = Return None (Some ErrInvalid)"
  using Decompress_truncated_size [of "[0x02, 0x00, 0x00]" lit_codec]
    Decompress_truncated_size [of "[]" lit_codec]
  by simp

section \<open>The empty payload\<close>

text \<open>
  C6. The magic, a size field of four zero bytes and any trailing bytes \<open>t\<close> decode to
  the empty byte sequence with a nil error. The result is the same for every block codec
  and every \<open>t\<close>: the block decompressor is not consulted and \<open>t\<close> is not looked at.
\<close>

theorem Decompress_zero_size:
  "Decompress lz4 (HEADER @ [0, 0, 0, 0] @ t) = Return (Some []) None"
  using Decompress_framed [of lz4 0 t] by (simp add: PutUint32_0)

theorem Decompress_zero_size_witness:
  "Decompress failing_codec (HEADER @ [0, 0, 0, 0] @ [0xff, 0xff, 0xff]) = Return (Some []) None
   \<and> Decompress lit_codec (HEADER @ [0, 0, 0, 0] @ [0x20, 0x7b, 0x7d]) = Return (Some []) None"
  using Decompress_zero_size [of failing_codec "[0xff, 0xff, 0xff]"]
    Decompress_zero_size [of lit_codec "[0x20, 0x7b, 0x7d]"]
  by simp

text \<open>
  C7. Compressing the empty byte sequence gives exactly the twelve bytes
  \<open>6d 6f 7a 4c 7a 34 30 00 00 00 00 00\<close>, the magic followed by four zero bytes, with a
  nil error, whatever the block codec is (the block compressor is not consulted), and
  decompressing these twelve bytes gives the empty byte sequence.
\<close>

theorem Compress_empty:
  "Compress lz4 [] =
     Return (Some [0x6d, 0x6f, 0x7a, 0x4c, 0x7a, 0x34, 0x30, 0x00, 0x00, 0x00, 0x00, 0x00]) None
   \<and> [0x6d, 0x6f, 0x7a, 0x4c, 0x7a, 0x34, 0x30, 0x00, 0x00, 0x00, 0x00, 0x00]
       = HEADER @ [0, 0, 0, 0]
   \<and> Decompress lz4 [0x6d, 0x6f, 0x7a, 0x4c, 0x7a, 0x34, 0x30, 0x00, 0x00, 0x00, 0x00, 0x00]
       = Return (Some []) None"
proof -
  have bytes: "[0x6d, 0x6f, 0x7a, 0x4c, 0x7a, 0x34, 0x30, 0x00, 0x00, 0x00, 0x00, 0x00]
      = HEADER @ LittleEndian_PutUint32 0 @ []"
    by (simp add: HEADER_def PutUint32_0)
  have enc: "Compress lz4 [] = Return (Some (HEADER @ LittleEndian_PutUint32 0 @ [])) None"
    by (simp add: Compress_Nil)
  have dec: "Decompress lz4 (HEADER @ LittleEndian_PutUint32 0 @ []) = Return (Some []) None"
    using Decompress_framed [of lz4 0 "[]"] by simp
  show ?thesis
    unfolding bytes using enc dec by (simp add: PutUint32_0)
qed

theorem Compress_empty_witness:
  "Compress failing_codec [] =
     Return (Some [0x6d, 0x6f, 0x7a, 0x4c, 0x7a, 0x34, 0x30, 0x00, 0x00, 0x00, 0x00, 0x00]) None
   \<and> Decompress failing_codec
         [0x6d, 0x6f, 0x7a, 0x4c, 0x7a, 0x34, 0x30, 0x00, 0x00, 0x00, 0x00, 0x00]
       = Return (Some []) None"
  using Compress_empty [of failing_codec] by simp

section \<open>Compress: the frame\<close>

text \<open>
  C8. For an input \<open>d\<close> shorter than \<open>2^32\<close> bytes, a buffer that \<open>Compress\<close> returns
  with a nil error begins with the eight magic bytes followed by \<open>len(d)\<close> as four
  little-endian bytes (byte \<open>i\<close> is \<open>len(d) div 256^i mod 256\<close>), and its length is
  12 for the empty input and otherwise 12 plus the count the block compressor returned.
  The count is taken to be what the package documents it to be, a number of bytes: not
  negative.
\<close>

theorem Compress_framing:
  assumes "length d < 2 ^ 32"
    and "Compress lz4 d = Return (Some c) None"
    and "\<forall>n w. CompressBlock lz4 d (Compress_dst lz4 d) = Inr (n, w) \<longrightarrow> 0 \<le> n"
  shows "take 8 c = HEADER
     \<and> take 4 (drop 8 c) = LittleEndian_PutUint32 (word_of_nat (length d))
     \<and> map unat (take 4 (drop 8 c)) =
         [length d mod 256, length d div 256 mod 256, length d div 65536 mod 256,
          length d div 16777216 mod 256]
     \<and> (d = [] \<longrightarrow> length c = 12)
     \<and> (d \<noteq> [] \<longrightarrow>
          (\<exists>n w. CompressBlock lz4 d (Compress_dst lz4 d) = Inr (n, w)
             \<and> int (length c) = 12 + n))"
proof -
  let ?sz = "word_of_nat (length d) :: uint32"
  have unat_sz: "unat ?sz = length d"
    using assms(1) by (simp add: unat_of_nat)
  have field: "map unat (LittleEndian_PutUint32 ?sz) =
         [length d mod 256, length d div 256 mod 256, length d div 65536 mod 256,
          length d div 16777216 mod 256]"
    by (simp only: unat_PutUint32 unat_sz)
  obtain p where c: "c = HEADER @ LittleEndian_PutUint32 ?sz @ p"
    and p: "d = [] \<longrightarrow> p = []"
      "d \<noteq> [] \<longrightarrow> (\<exists>n w. CompressBlock lz4 d (Compress_dst lz4 d) = Inr (n, w)
          \<and> int (length p) = n)"
  proof (cases "d = []")
    case True
    with assms(2) have "c = HEADER @ LittleEndian_PutUint32 ?sz @ []"
      by (simp add: Compress_Nil)
    with True that show ?thesis by blast
  next
    case False
    then show ?thesis
    proof (cases rule: Compress_cases [of d lz4])
      case (error e)
      with assms(2) show ?thesis by simp
    next
      case (panic n w)
      with assms(2) show ?thesis by simp
    next
      case (buffer n w)
      from buffer(1) assms(3) have lo: "0 \<le> n" by blast
      from buffer(4) assms(2)
      have "c = take (nat (12 + n)) (HEADER @ LittleEndian_PutUint32 ?sz
          @ overwrite (Compress_dst lz4 d) w)"
        by (simp del: take_append)
      also have "\<dots> = HEADER @ LittleEndian_PutUint32 ?sz
          @ take (nat n) (overwrite (Compress_dst lz4 d) w)"
        using lo by (rule take_container)
      finally have "c = HEADER @ LittleEndian_PutUint32 ?sz
          @ take (nat n) (overwrite (Compress_dst lz4 d) w)" .
      moreover have "int (length (take (nat n) (overwrite (Compress_dst lz4 d) w))) = n"
        using lo buffer(3) by (simp add: length_overwrite)
      ultimately show ?thesis using False buffer(1) that by blast
    qed
  qed
  have "take 8 c = HEADER"
    by (simp add: c length_HEADER)
  moreover have "take 4 (drop 8 c) = LittleEndian_PutUint32 ?sz"
    by (simp add: c length_HEADER length_PutUint32)
  moreover have "d = [] \<longrightarrow> length c = 12"
    using p(1) by (simp add: c length_HEADER length_PutUint32)
  moreover have "d \<noteq> [] \<longrightarrow>
      (\<exists>n w. CompressBlock lz4 d (Compress_dst lz4 d) = Inr (n, w) \<and> int (length c) = 12 + n)"
    using p(2) by (auto simp add: c length_HEADER length_PutUint32)
  ultimately show ?thesis
    using field by simp
qed

theorem Compress_framing_witness:
  "length [0x7b, 0x7d :: byte] < 2 ^ 32
   \<and> Compress lit_codec [0x7b, 0x7d]
       = Return (Some (HEADER @ [2, 0, 0, 0, 0x20, 0x7b, 0x7d])) None
   \<and> CompressBlock lit_codec [0x7b, 0x7d] (Compress_dst lit_codec [0x7b, 0x7d])
       = Inr (3, [0x20, 0x7b, 0x7d])
   \<and> take 8 (HEADER @ [2, 0, 0, 0, 0x20, 0x7b, 0x7d]) = HEADER
   \<and> map unat (take 4 (drop 8 (HEADER @ [2, 0, 0, 0, 0x20, 0x7b, 0x7d :: byte])))
       = [2, 0, 0, 0]
   \<and> length (HEADER @ [2, 0, 0, 0, 0x20, 0x7b, 0x7d :: byte]) = 15"
proof -
  have len: "length [0x7b, 0x7d :: byte] < 2 ^ 32" by simp
  have nonneg: "\<forall>n w. CompressBlock lit_codec [0x7b, 0x7d]
       (Compress_dst lit_codec [0x7b, 0x7d]) = Inr (n, w) \<longrightarrow> 0 \<le> n"
    by (simp add: CompressBlock_lit_2)
  note inst = Compress_framing [OF len Compress_lit_2 nonneg]
  have 1: "take 8 (HEADER @ [2, 0, 0, 0, 0x20, 0x7b, 0x7d]) = HEADER"
    using inst by blast
  have "map unat (take 4 (drop 8 (HEADER @ [2, 0, 0, 0, 0x20, 0x7b, 0x7d :: byte]))) =
         [length [0x7b, 0x7d :: byte] mod 256, length [0x7b, 0x7d :: byte] div 256 mod 256,
          length [0x7b, 0x7d :: byte] div 65536 mod 256,
          length [0x7b, 0x7d :: byte] div 16777216 mod 256]"
    using inst by blast
  then have 2: "map unat (take 4 (drop 8 (HEADER @ [2, 0, 0, 0, 0x20, 0x7b, 0x7d :: byte])))
       = [2, 0, 0, 0]"
    by simp
  have "\<exists>n w. CompressBlock lit_codec [0x7b, 0x7d] (Compress_dst lit_codec [0x7b, 0x7d])
        = Inr (n, w) \<and> int (length (HEADER @ [2, 0, 0, 0, 0x20, 0x7b, 0x7d :: byte])) = 12 + n"
    using inst by blast
  then have 3: "length (HEADER @ [2, 0, 0, 0, 0x20, 0x7b, 0x7d :: byte]) = 15"
    by (simp add: CompressBlock_lit_2)
  from len Compress_lit_2 CompressBlock_lit_2 1 2 3 show ?thesis by blast
qed

section \<open>Errors\<close>

text \<open>
  C9. When \<open>Compress\<close> or \<open>Decompress\<close> returns an error, the byte slice it returns with
  it is \<open>nil\<close>: no buffer, filled or partly filled, comes back on a failure path.
\<close>

theorem no_buffer_with_error:
  "(Compress lz4 d = Return r (Some e) \<longrightarrow> r = None)
   \<and> (Decompress lz4 d = Return r (Some e) \<longrightarrow> r = None)"
proof
  show "Compress lz4 d = Return r (Some e) \<longrightarrow> r = None"
  proof (cases "d = []")
    case True
    then show ?thesis by (simp add: Compress_Nil)
  next
    case False
    then show ?thesis by (cases rule: Compress_cases [of d lz4]) simp_all
  qed
  show "Decompress lz4 d = Return r (Some e) \<longrightarrow> r = None"
    by (auto simp add: Decompress_def Let_def
        split: prod.splits option.splits sum.splits if_splits)
qed

theorem no_buffer_with_error_witness:
  "Compress failing_codec [0x7b, 0x7d] = Return None (Some (ErrBlock ()))
   \<and> ret_buf (Compress failing_codec [0x7b, 0x7d]) = None
   \<and> Decompress lit_codec [0x6d, 0x6f] = Return None (Some ErrInvalid)
   \<and> ret_buf (Decompress lit_codec [0x6d, 0x6f]) = None"
proof -
  have c: "Compress failing_codec [0x7b, 0x7d] = Return None (Some (ErrBlock ()))"
    by (simp add: Compress_failing)
  have "take 8 [0x6d, 0x6f :: byte] \<noteq> HEADER"
    by (simp add: HEADER_def)
  then have d: "Decompress lit_codec [0x6d, 0x6f] = Return None (Some ErrInvalid)"
    by (simp add: Decompress_def CutPrefix_not_found)
  have "Compress failing_codec [0x7b, 0x7d]
      = Return (ret_buf (Compress failing_codec [0x7b, 0x7d])) (Some (ErrBlock ()))"
    by (simp add: c)
  with no_buffer_with_error [of failing_codec "[0x7b, 0x7d]" _ "ErrBlock ()"]
  have c': "ret_buf (Compress failing_codec [0x7b, 0x7d]) = None" by blast
  have "Decompress lit_codec [0x6d, 0x6f]
      = Return (ret_buf (Decompress lit_codec [0x6d, 0x6f])) (Some ErrInvalid)"
    by (simp add: d)
  with no_buffer_with_error [of lit_codec "[0x6d, 0x6f]" _ ErrInvalid]
  have d': "ret_buf (Decompress lit_codec [0x6d, 0x6f]) = None" by blast
  from c c' d d' show ?thesis by blast
qed

text \<open>
  C10. \<open>binary.Append\<close> of a \<open>uint32\<close> returns a nil error, so the branch of
  \<open>Compress\<close> that tests it is never taken: \<open>Compress\<close> returns an error exactly when
  the input is not empty and the block compressor returns one, and that error is the one
  it returns. When the input is empty, or the block compressor returns a count of bytes
  inside the destination it was given, \<open>Compress\<close> returns a buffer and a nil error.
\<close>

theorem Compress_error_is_block_error:
  "snd (binary_Append b v :: byte list \<times> 'e error option) = None
   \<and> (Compress lz4 d = Return r (Some e) \<longleftrightarrow>
        d \<noteq> [] \<and> r = None \<and>
        (\<exists>e'. CompressBlock lz4 d (Compress_dst lz4 d) = Inl e' \<and> e = ErrBlock e'))
   \<and> (d = [] \<or> (\<exists>n w. CompressBlock lz4 d (Compress_dst lz4 d) = Inr (n, w)
                     \<and> 0 \<le> n \<and> n \<le> int (length (Compress_dst lz4 d)))
        \<longrightarrow> (\<exists>c. Compress (lz4 :: 'e block_codec) d = Return (Some c) None))"
proof (intro conjI)
  show "snd (binary_Append b v :: byte list \<times> 'e error option) = None"
    by (simp add: binary_Append_def)
  show "Compress lz4 d = Return r (Some e) \<longleftrightarrow>
        d \<noteq> [] \<and> r = None \<and>
        (\<exists>e'. CompressBlock lz4 d (Compress_dst lz4 d) = Inl e' \<and> e = ErrBlock e')"
  proof (cases "d = []")
    case True
    then show ?thesis by (simp add: Compress_Nil)
  next
    case False
    from False show ?thesis
      by (cases rule: Compress_cases [of d lz4]) (use False in auto)
  qed
  show "d = [] \<or> (\<exists>n w. CompressBlock lz4 d (Compress_dst lz4 d) = Inr (n, w)
                     \<and> 0 \<le> n \<and> n \<le> int (length (Compress_dst lz4 d)))
        \<longrightarrow> (\<exists>c. Compress lz4 d = Return (Some c) None)"
  proof (cases "d = []")
    case True
    then show ?thesis by (simp add: Compress_Nil)
  next
    case False
    then show ?thesis by (auto simp add: Compress_counted)
  qed
qed

theorem Compress_error_is_block_error_witness:
  "CompressBlock failing_codec [0x7b, 0x7d] (Compress_dst failing_codec [0x7b, 0x7d]) = Inl ()
   \<and> Compress failing_codec [0x7b, 0x7d] = Return None (Some (ErrBlock ()))
   \<and> CompressBlock lit_codec [0x7b, 0x7d] (Compress_dst lit_codec [0x7b, 0x7d])
       = Inr (3, [0x20, 0x7b, 0x7d])
   \<and> (3 :: int) \<le> int (length (Compress_dst lit_codec [0x7b, 0x7d]))
   \<and> (\<exists>c. Compress lit_codec [0x7b, 0x7d] = Return (Some c) None)"
proof -
  note f = CompressBlock_failing [of "[0x7b, 0x7d]"]
  note l = CompressBlock_lit_2
  have b: "(3 :: int) \<le> int (length (Compress_dst lit_codec [0x7b, 0x7d]))"
    by (simp add: length_Compress_dst lit_codec_def)
  have 1: "Compress failing_codec [0x7b, 0x7d] = Return None (Some (ErrBlock ()))"
    using Compress_error_is_block_error
        [of "[]" 0 failing_codec "[0x7b, 0x7d]" None "ErrBlock ()"] f
    by blast
  have 2: "\<exists>c. Compress lit_codec [0x7b, 0x7d] = Return (Some c) None"
    using Compress_error_is_block_error
        [of "[]" 0 lit_codec "[0x7b, 0x7d]" None ErrInvalid] l b
    by auto
  from f 1 l b 2 show ?thesis by blast
qed

end
